theory Spec2Isabelle
  imports Main "HOL-Library.Word" "HOL-Library.Sublist"
begin

section \<open>The DALI gRPC demonstration client (client/dali_grpc_client.py)\<close>

text \<open>
  The client parses its command line, loads up to 15 encoded images, pads and stacks
  them into one 2-D array of bytes, sends the array in batches to an inference server
  and finally asks the server for its statistics. The embedding below follows the
  Python source function by function. Exceptions are values of type \<open>error\<close>; a
  function that may raise returns \<open>error + 'a\<close> with \<open>Inl\<close> for the exception.
\<close>

subsection \<open>Exceptions\<close>

datatype error =
    ValueError
  | AssertionError
  | TypeError
  | OSError
  | InferenceServerException
  | Cv2Error

subsection \<open>Arrays of bytes\<close>

text \<open>
  A 1-D \<open>ndarray\<close> of \<open>np.uint8\<close> is a list of 8-bit words; its \<open>shape[0]\<close> is the
  length of the list. The 2-D array returned by \<open>np.stack\<close> is the list of its rows.
\<close>

type_synonym byte = "8 word"

subsection \<open>\<open>array_from_list\<close>\<close>

text \<open>
  \<^verbatim>\<open>max(lengths)\<close>: Python raises \<open>ValueError\<close> on an empty sequence.
\<close>

fun py_max :: "int list \<Rightarrow> error + int" where
  "py_max [] = Inl ValueError"
| "py_max (x # xs) = Inr (fold max xs x)"

text \<open>
  \<^verbatim>\<open>np.pad(arr, ((0, k)))\<close> on a 1-D array in the default mode appends \<open>k\<close> zeros;
  a negative width is rejected with \<open>ValueError\<close>.
\<close>

definition np_pad :: "'a::zero list \<Rightarrow> int \<Rightarrow> error + 'a list" where
  "np_pad arr k = (if k < 0 then Inl ValueError else Inr (arr @ replicate (nat k) 0))"

text \<open>
  \<^verbatim>\<open>list(map(lambda arr, ml=max_len: np.pad(arr, ((0, ml - arr.shape[0]))), arrays))\<close>:
  the first exception ends the map.
\<close>

fun pad_each :: "int \<Rightarrow> 'a::zero list list \<Rightarrow> error + 'a list list" where
  "pad_each ml [] = Inr []"
| "pad_each ml (arr # rest) =
     (case np_pad arr (ml - int (length arr)) of
        Inl e \<Rightarrow> Inl e
      | Inr p \<Rightarrow> (case pad_each ml rest of
                   Inl e \<Rightarrow> Inl e
                 | Inr ps \<Rightarrow> Inr (p # ps)))"

text \<open>
  \<^verbatim>\<open>for arr in arrays: assert arr.shape == arrays[0].shape\<close>, with the first array
  passed along as \<open>first\<close>.
\<close>

fun assert_same_shape :: "'a list \<Rightarrow> 'a list list \<Rightarrow> error + unit" where
  "assert_same_shape first [] = Inr ()"
| "assert_same_shape first (arr # rest) =
     (if length arr = length first then assert_same_shape first rest
      else Inl AssertionError)"

text \<open>
  \<^verbatim>\<open>np.stack(arrays)\<close> needs at least one array, and all arrays of one shape.
\<close>

definition np_stack :: "'a list list \<Rightarrow> error + 'a list list" where
  "np_stack arrays =
     (case arrays of
        [] \<Rightarrow> Inl ValueError
      | first # _ \<Rightarrow>
          if list_all (\<lambda>arr. length arr = length first) arrays then Inr arrays
          else Inl ValueError)"

definition array_from_list :: "'a::zero list list \<Rightarrow> error + 'a list list" where
  "array_from_list arrays =
     (let lengths = map (\<lambda>x. int (length (arrays ! x))) [0..<length arrays] in
      case py_max lengths of
        Inl e \<Rightarrow> Inl e
      | Inr max_len \<Rightarrow>
          (case pad_each max_len arrays of
             Inl e \<Rightarrow> Inl e
           | Inr padded \<Rightarrow>
               (case assert_same_shape (hd padded) padded of
                  Inl e \<Rightarrow> Inl e
                | Inr _ \<Rightarrow> np_stack padded)))"

text \<open>The row that padding to length \<open>m\<close> makes of a buffer.\<close>

definition padded_row :: "nat \<Rightarrow> 'a::zero list \<Rightarrow> 'a list" where
  "padded_row m arr = arr @ replicate (m - length arr) 0"

subsection \<open>Command line: \<open>parse_args\<close>\<close>

text \<open>
  An invocation is the list of its arguments in their order, each as \<open>argparse\<close>
  understands it: one of the eleven options that \<open>parse_args\<close> declares, already
  split from its value and converted by its \<open>type=\<close>; the option \<open>-h\<close>/\<open>--help\<close>
  that \<open>argparse.ArgumentParser()\<close> adds by itself; an option that \<open>argparse\<close>
  rejects when it reaches it, for a value that \<open>type=int\<close> does not convert or for a
  missing value (\<open>Invalid\<close>); an argument that no option matches (\<open>Unrecognized\<close>);
  an abbreviation that matches several options (\<open>Ambiguous\<close>).
\<close>

datatype arg =
    Verbose
  | Url string
  | Batch_size int
  | N_iter int
  | Model_name string
  | Input_name string
  | Output_name string
  | Preprocess
  | Statistics
  | Img string
  | Img_dir string
  | Help
  | Invalid
  | Unrecognized
  | Ambiguous

record flags =
  verbose :: bool
  url :: string
  batch_size :: int
  n_iter :: int
  model_name :: string
  input_name :: string
  output_name :: string
  preprocess :: bool
  statistics :: bool
  img :: "string option"
  img_dir :: "string option"

text \<open>The \<open>default=\<close> of every option.\<close>

definition default_flags :: flags where
  "default_flags =
     \<lparr>verbose = False, url = ''localhost:8001'', batch_size = 1, n_iter = - 1,
      model_name = ''dali_backend'', input_name = ''INPUT'', output_name = ''OUTPUT'',
      preprocess = False, statistics = False, img = None, img_dir = None\<rparr>"

text \<open>
  What parsing comes to: the namespace, \<open>parser.error\<close> (the usage message and exit
  status 2) or the help text and exit status 0.
\<close>

datatype parsed =
    Namespace flags
  | Usage_exit
  | Help_exit

text \<open>
  One argument is taken. \<open>--img\<close> and \<open>--img_dir\<close> belong to one mutually exclusive
  group: \<open>argparse\<close> rejects the second of them when the first was seen with a value
  other than its default \<open>None\<close>, which every given path is. The help action prints
  the help and exits at once. An argument that no option matches is put aside and
  leaves the namespace as it is.
\<close>

fun take_action :: "flags \<Rightarrow> arg \<Rightarrow> parsed" where
  "take_action F Verbose = Namespace (F\<lparr>verbose := True\<rparr>)"
| "take_action F (Url u) = Namespace (F\<lparr>url := u\<rparr>)"
| "take_action F (Batch_size n) = Namespace (F\<lparr>batch_size := n\<rparr>)"
| "take_action F (N_iter n) = Namespace (F\<lparr>n_iter := n\<rparr>)"
| "take_action F (Model_name m) = Namespace (F\<lparr>model_name := m\<rparr>)"
| "take_action F (Input_name i) = Namespace (F\<lparr>input_name := i\<rparr>)"
| "take_action F (Output_name out) = Namespace (F\<lparr>output_name := out\<rparr>)"
| "take_action F Preprocess = Namespace (F\<lparr>preprocess := True\<rparr>)"
| "take_action F Statistics = Namespace (F\<lparr>statistics := True\<rparr>)"
| "take_action F (Img p) =
     (if img_dir F \<noteq> None then Usage_exit else Namespace (F\<lparr>img := Some p\<rparr>))"
| "take_action F (Img_dir p) =
     (if img F \<noteq> None then Usage_exit else Namespace (F\<lparr>img_dir := Some p\<rparr>))"
| "take_action F Help = Help_exit"
| "take_action F Invalid = Usage_exit"
| "take_action F Unrecognized = Namespace F"
| "take_action F Ambiguous = Usage_exit"

text \<open>The arguments are taken from left to right; the first exit ends the parsing.\<close>

fun parse_known :: "flags \<Rightarrow> arg list \<Rightarrow> parsed" where
  "parse_known F [] = Namespace F"
| "parse_known F (a # rest) =
     (case take_action F a of
        Namespace F' \<Rightarrow> parse_known F' rest
      | Usage_exit \<Rightarrow> Usage_exit
      | Help_exit \<Rightarrow> Help_exit)"

text \<open>
  \<open>parser.parse_args()\<close>. An ambiguous abbreviation is an error while
  \<open>argparse\<close> classifies the arguments, before any of them is taken; arguments that
  no option matches are an error after all others were taken.
\<close>

definition parse_args :: "arg list \<Rightarrow> parsed" where
  "parse_args argv =
     (if Ambiguous \<in> set argv then Usage_exit
      else case parse_known default_flags argv of
             Namespace F \<Rightarrow> if Unrecognized \<in> set argv then Usage_exit else Namespace F
           | Usage_exit \<Rightarrow> Usage_exit
           | Help_exit \<Rightarrow> Help_exit)"

subsection \<open>The process: events and endings\<close>

text \<open>
  A run of the client ends by returning from \<open>main\<close>, by \<open>sys.exit\<close> (with or
  without a code) or by an exception that nothing catches.
\<close>

datatype ending =
    Returned
  | SysExit "int option"
  | Uncaught error

text \<open>
  The exit status of the process: \<open>sys.exit()\<close> without argument and a normal return
  give 0, an uncaught exception gives 1.
\<close>

fun exit_code :: "ending \<Rightarrow> int" where
  "exit_code Returned = 0"
| "exit_code (SysExit None) = 0"
| "exit_code (SysExit (Some n)) = n"
| "exit_code (Uncaught e) = 1"

text \<open>
  What a run prints on standard output. Scores (\<open>'s\<close>) and the durations measured
  around the preprocessing (\<open>'d\<close>) are floating-point numbers in the source; the model
  carries them without computing with them: \<open>Latencies\<close> holds, for each batch, the
  durations that the source adds up.
\<close>

datatype ('s, 'd) line =
    Text string
  | Sample nat nat 's
  | Statistics_dump nat
  | Latencies "'d list list"

text \<open>The first argument of \<open>InferInput\<close> and the requested output of one call.\<close>

record 't request =
  req_model_name :: string
  req_input_name :: string
  req_input_shape :: "nat list"
  req_input_dtype :: string
  req_output_name :: string
  req_data :: "byte list list + 't list"

text \<open>
  What a run does to the outside, in order: output (the usage error and the help text
  of \<open>argparse\<close> are events of their own), the construction of the client,
  the accesses to the file system and the calls to the server. The progress bars of
  \<open>tqdm\<close> are left out.
\<close>

datatype ('s, 't, 'd) event =
    Stdout "('s, 'd) line"
  | Usage_error
  | Help_message
  | InferenceServerClient string bool
  | Listdir "string option"
  | Isfile "string option"
  | Open_rb string
  | Infer "'t request"
  | Get_inference_statistics string

text \<open>
  A piece of the program gives the events it causes and either the way the process
  ended in it or its value.
\<close>

type_synonym ('e, 'a) proc = "'e list \<times> (ending + 'a)"

definition returns :: "'a \<Rightarrow> ('e, 'a) proc" where
  "returns a = ([], Inr a)"

definition emit :: "'e \<Rightarrow> ('e, unit) proc" where
  "emit ev = ([ev], Inr ())"

definition emit_all :: "'e list \<Rightarrow> ('e, unit) proc" where
  "emit_all evs = (evs, Inr ())"

definition sys_exit :: "int option \<Rightarrow> ('e, 'a) proc" where
  "sys_exit code = ([], Inl (SysExit code))"

text \<open>The result of a call that nothing guards: its exception ends the process.\<close>

definition raising :: "error + 'a \<Rightarrow> ('e, 'a) proc" where
  "raising r = (case r of Inl e \<Rightarrow> ([], Inl (Uncaught e)) | Inr a \<Rightarrow> ([], Inr a))"

definition and_then :: "('e, 'a) proc \<Rightarrow> ('a \<Rightarrow> ('e, 'b) proc) \<Rightarrow> ('e, 'b) proc" where
  "and_then m k =
     (case m of
        (evs, Inl e) \<Rightarrow> (evs, Inl e)
      | (evs, Inr a) \<Rightarrow> (case k a of (evs', r) \<Rightarrow> (evs @ evs', r)))"

subsection \<open>The outside world\<close>

text \<open>
  The answers of everything the client calls and does not define: the constructor of
  the Triton client (\<open>Inl msg\<close> is an exception whose \<open>str\<close> is \<open>msg\<close>), the file
  system, OpenCV and the clock, the server. \<open>utils_batcher\<close> is the generator
  \<open>utils.batcher\<close>, whose module is not among the sources: it gives the batches it
  yields and the exception it ends with, if any. \<open>infer\<close> is given the number of the
  call. \<open>get_inference_statistics\<close> gives \<open>len(statistics.model_stats)\<close>.
\<close>

record ('s, 't, 'd) world =
  create_client :: "string \<Rightarrow> bool \<Rightarrow> string + unit"
  listdir :: "string option \<Rightarrow> error + string list"
  isfile :: "string \<Rightarrow> bool"
  read_bytes :: "string \<Rightarrow> error + byte list"
  cv2_pipeline :: "byte list \<Rightarrow> error + 't"
  perf_counter_delta :: "byte list \<Rightarrow> 'd"
  utils_batcher :: "byte list list \<Rightarrow> int \<Rightarrow> int \<Rightarrow> byte list list list \<times> error option"
  infer :: "nat \<Rightarrow> 't request \<Rightarrow> error + 's list list"
  get_inference_statistics :: "string \<Rightarrow> error + nat"

subsection \<open>\<open>load_image\<close> and \<open>load_images\<close>\<close>

text \<open>\<^verbatim>\<open>os.path.join(a, b)\<close> of \<open>posixpath\<close>.\<close>

definition path_join :: "string \<Rightarrow> string \<Rightarrow> string" where
  "path_join a b =
     (if b \<noteq> [] \<and> hd b = CHR ''/'' then b
      else if a = [] \<or> last a = CHR ''/'' then a @ b
      else a @ ''/'' @ b)"

definition load_image :: "('s, 't, 'd) world \<Rightarrow> string \<Rightarrow> (('s, 't, 'd) event, byte list) proc" where
  "load_image w img_path =
     and_then (emit (Open_rb img_path)) (\<lambda>_. raising (read_bytes w img_path))"

text \<open>\<^verbatim>\<open>for img in img_paths: images.append(load_image(img))\<close>\<close>

fun load_each :: "('s, 't, 'd) world \<Rightarrow> string list \<Rightarrow> (('s, 't, 'd) event, byte list list) proc" where
  "load_each w [] = returns []"
| "load_each w (p # ps) =
     and_then (load_image w p) (\<lambda>encoded.
     and_then (load_each w ps) (\<lambda>images. returns (encoded # images)))"

text \<open>
  The value of \<open>img_paths\<close> before the cut, for a path that is a string: the path
  itself when it is a file, else the entries of its listing that are files.
\<close>

definition img_paths :: "('s, 't, 'd) world \<Rightarrow> string \<Rightarrow> string list \<Rightarrow> string list" where
  "img_paths w dir_path names =
     (if isfile w dir_path then [dir_path]
      else filter (isfile w) (map (path_join dir_path) names))"

text \<open>
  \<open>load_images\<close>. The generator expression calls \<open>os.listdir(dir_path)\<close> at once, before
  \<open>os.path.isfile(dir_path)\<close>; \<open>os.listdir(None)\<close> lists the current directory and
  \<open>os.path.isfile(None)\<close> raises \<open>TypeError\<close>. The file tests of the generator run
  only when \<open>dir_path\<close> is not a file.
\<close>

definition load_images ::
  "('s, 't, 'd) world \<Rightarrow> string option \<Rightarrow> int \<Rightarrow> (('s, 't, 'd) event, byte list list) proc" where
  "load_images w dir_path max_images =
     (if \<not> (max_images > 0 \<or> max_images = - 1) then raising (Inl AssertionError)
      else
        and_then (emit (Listdir dir_path)) (\<lambda>_.
        and_then (raising (listdir w dir_path)) (\<lambda>names.
        and_then (emit (Isfile dir_path)) (\<lambda>_.
        case dir_path of
          None \<Rightarrow> raising (Inl TypeError)
        | Some d \<Rightarrow>
            and_then
              (if isfile w d then returns ()
               else emit_all (map (\<lambda>f. Isfile (Some (path_join d f))) names)) (\<lambda>_.
            load_each w
              (if max_images > 0 then take (nat max_images) (img_paths w d names)
               else img_paths w d names))))))"

subsection \<open>\<open>preprocess_image\<close>\<close>

text \<open>
  Decoding, resizing to 299 by 299 and normalising are OpenCV and floating-point
  arithmetic: \<open>cv2_pipeline\<close> gives the resulting tensor, of shape (299, 299, 3), or the
  exception of a buffer that does not decode.
\<close>

definition preprocess_image :: "('s, 't, 'd) world \<Rightarrow> byte list \<Rightarrow> error + 't \<times> 'd" where
  "preprocess_image w encoded_image =
     (case cv2_pipeline w encoded_image of
        Inl e \<Rightarrow> Inl e
      | Inr normalised \<Rightarrow> Inr (normalised, perf_counter_delta w encoded_image))"

text \<open>\<^verbatim>\<open>for img in batch: prep, lat = preprocess_image(img); ...\<close>\<close>

fun preprocess_each :: "('s, 't, 'd) world \<Rightarrow> byte list list \<Rightarrow> error + ('t \<times> 'd) list" where
  "preprocess_each w [] = Inr []"
| "preprocess_each w (encoded # rest) =
     (case preprocess_image w encoded of
        Inl e \<Rightarrow> Inl e
      | Inr s \<Rightarrow> (case preprocess_each w rest of
                   Inl e \<Rightarrow> Inl e
                 | Inr ss \<Rightarrow> Inr (s # ss)))"

text \<open>
  \<open>array_from_list\<close> on preprocessed tensors: all have 299 rows, so every pad width
  is 0 and the assertion holds; only the empty list fails, in \<open>max\<close>.
\<close>

definition array_from_tensors :: "'t list \<Rightarrow> error + 't list" where
  "array_from_tensors samples = (if samples = [] then Inl ValueError else Inr samples)"

subsection \<open>The inference loop\<close>

text \<open>\<^verbatim>\<open>np.argmax\<close> of one row: the first index of the greatest score.\<close>

fun argmax_from :: "'s::linorder \<Rightarrow> nat \<Rightarrow> nat \<Rightarrow> 's list \<Rightarrow> nat" where
  "argmax_from best at i [] = at"
| "argmax_from best at i (x # xs) =
     (if best < x then argmax_from x i (Suc i) xs else argmax_from best at (Suc i) xs)"

fun argmax_row :: "'s::linorder list \<Rightarrow> error + nat" where
  "argmax_row [] = Inl ValueError"
| "argmax_row (x # xs) = Inr (argmax_from x 0 1 xs)"

text \<open>\<^verbatim>\<open>np.argmax(output0_data, axis=1)\<close>, the output given as the list of its rows.\<close>

fun np_argmax :: "'s::linorder list list \<Rightarrow> error + nat list" where
  "np_argmax [] = Inr []"
| "np_argmax (row # rows) =
     (case argmax_row row of
        Inl e \<Rightarrow> Inl e
      | Inr m \<Rightarrow> (case np_argmax rows of
                   Inl e \<Rightarrow> Inl e
                 | Inr ms \<Rightarrow> Inr (m # ms)))"

text \<open>
  The body of the loop over the batches, lines 161 to 187. \<open>k\<close> counts the calls to
  the server, \<open>ncols\<close> is the row length of \<open>image_data\<close>, \<open>latencies\<close> the list that
  the loop extends.
\<close>

definition infer_batch ::
  "('s::linorder, 't, 'd) world \<Rightarrow> flags \<Rightarrow> nat \<Rightarrow> nat \<Rightarrow> 'd list list \<Rightarrow> byte list list \<Rightarrow>
     (('s, 't, 'd) event, 'd list list) proc" where
  "infer_batch w F ncols k latencies batch =
     and_then
       (if preprocess F then
          and_then (raising (preprocess_each w batch)) (\<lambda>preprocessed_samples.
          and_then (raising (array_from_tensors (map fst preprocessed_samples))) (\<lambda>stacked.
          returns (Inr stacked, [length stacked, 299, 299, 3],
                   latencies @ [map snd preprocessed_samples])))
        else returns (Inl batch, [length batch, ncols], latencies))
       (\<lambda>(data, shape, latencies').
     and_then
       (emit (Infer \<lparr>req_model_name = model_name F, req_input_name = input_name F,
                     req_input_shape = shape,
                     req_input_dtype = (if \<not> preprocess F then ''UINT8'' else ''FP32''),
                     req_output_name = output_name F, req_data = data\<rparr>)) (\<lambda>_.
     and_then
       (raising (infer w k
                  \<lparr>req_model_name = model_name F, req_input_name = input_name F,
                   req_input_shape = shape,
                   req_input_dtype = (if \<not> preprocess F then ''UINT8'' else ''FP32''),
                   req_output_name = output_name F, req_data = data\<rparr>)) (\<lambda>output0_data.
     and_then (raising (np_argmax output0_data)) (\<lambda>maxs.
     and_then
       (if statistics F then
          emit_all (map (\<lambda>i. Stdout (Sample i (maxs ! i) (output0_data ! i ! (maxs ! i))))
                      [0..<length maxs])
        else returns ()) (\<lambda>_.
     returns latencies')))))"

fun infer_batches ::
  "('s::linorder, 't, 'd) world \<Rightarrow> flags \<Rightarrow> nat \<Rightarrow> nat \<Rightarrow> 'd list list \<Rightarrow> byte list list list \<Rightarrow>
     (('s, 't, 'd) event, 'd list list) proc" where
  "infer_batches w F ncols k latencies [] = returns latencies"
| "infer_batches w F ncols k latencies (batch # rest) =
     and_then (infer_batch w F ncols k latencies batch) (\<lambda>latencies'.
     infer_batches w F ncols (Suc k) latencies' rest)"

subsection \<open>\<open>main\<close>\<close>

text \<open>
  Lines 189 to 198: the statistics of the server and the last lines of output. The
  name of the model in the query is the literal \<^verbatim>\<open>"dali"\<close>.
\<close>

definition report ::
  "('s::linorder, 't, 'd) world \<Rightarrow> flags \<Rightarrow> 'd list list \<Rightarrow> (('s, 't, 'd) event, unit) proc" where
  "report w F latencies =
     and_then (emit (Get_inference_statistics ''dali'')) (\<lambda>_.
     and_then (raising (get_inference_statistics w ''dali'')) (\<lambda>n_model_stats.
     and_then
       (if n_model_stats \<noteq> 1 then
          and_then (emit (Stdout (Text ''FAILED: Inference Statistics''))) (\<lambda>_.
          sys_exit (Some 1))
        else returns ()) (\<lambda>_.
     and_then
       (if statistics F then emit (Stdout (Statistics_dump n_model_stats))
        else returns ()) (\<lambda>_.
     and_then
       (if preprocess F then emit (Stdout (Latencies latencies)) else returns ()) (\<lambda>_.
     emit (Stdout (Text ''PASS: infer'')))))))"

text \<open>
  Lines 138 to 187, after the command line is parsed: the client, the images, the
  loop. \<open>sys.exit()\<close> in the handler has no argument.
\<close>

definition run_inference ::
  "('s::linorder, 't, 'd) world \<Rightarrow> flags \<Rightarrow> (('s, 't, 'd) event, 'd list list) proc" where
  "run_inference w F =
     and_then (emit (InferenceServerClient (url F) (verbose F))) (\<lambda>_.
     and_then
       (case create_client w (url F) (verbose F) of
          Inl msg \<Rightarrow>
            and_then (emit (Stdout (Text (''channel creation failed: '' @ msg)))) (\<lambda>_.
            sys_exit None)
        | Inr triton_client \<Rightarrow> returns triton_client) (\<lambda>_.
     and_then (emit (Stdout (Text ''Loading images''))) (\<lambda>_.
     and_then
       (load_images w (if img_dir F \<noteq> None then img_dir F else img F) 15) (\<lambda>images.
     and_then (raising (array_from_list images)) (\<lambda>image_data.
     and_then (emit (Stdout (Text ''Images loaded''))) (\<lambda>_.
     case utils_batcher w image_data (batch_size F) (n_iter F) of
       (batches, raised) \<Rightarrow>
         and_then (infer_batches w F (length (hd image_data)) 0 [] batches) (\<lambda>latencies.
         case raised of
           None \<Rightarrow> returns latencies
         | Some e \<Rightarrow> raising (Inl e))))))))"

definition main_proc ::
  "('s::linorder, 't, 'd) world \<Rightarrow> arg list \<Rightarrow> (('s, 't, 'd) event, unit) proc" where
  "main_proc w argv =
     (case parse_args argv of
        Usage_exit \<Rightarrow> and_then (emit Usage_error) (\<lambda>_. sys_exit (Some 2))
      | Help_exit \<Rightarrow> and_then (emit Help_message) (\<lambda>_. sys_exit (Some 0))
      | Namespace F \<Rightarrow> and_then (run_inference w F) (\<lambda>latencies. report w F latencies))"

record ('s, 't, 'd) run =
  ending :: ending
  events :: "('s, 't, 'd) event list"

definition main :: "('s::linorder, 't, 'd) world \<Rightarrow> arg list \<Rightarrow> ('s, 't, 'd) run" where
  "main w argv =
     (case main_proc w argv of
        (evs, Inl e) \<Rightarrow> \<lparr>ending = e, events = evs\<rparr>
      | (evs, Inr _) \<Rightarrow> \<lparr>ending = Returned, events = evs\<rparr>)"

text \<open>The paths of the files a run opened, in order.\<close>

fun opened :: "('s, 't, 'd) event list \<Rightarrow> string list" where
  "opened [] = []"
| "opened (Open_rb p # evs) = p # opened evs"
| "opened (_ # evs) = opened evs"

subsection \<open>The batching iterator\<close>

text \<open>
  Modelled from the spec: \<open>utils.batcher\<close>, the generator that \<open>main\<close> iterates; its
  module \<open>utils\<close> is not among the sources. The spec (4.5 and 9): from the ordered
  sequence of images, a batch size and an optional iteration count, a finite sequence
  of batches of \<open>bsize\<close> consecutive images, kept by a cursor. Without a count
  the data is gone through once, and the last batch may be shorter. A batch size of 0
  is outside the spec: nothing is yielded.
\<close>

function batches_from :: "nat \<Rightarrow> nat \<Rightarrow> 'a list \<Rightarrow> 'a list list" where
  "batches_from cursor bsize dataset =
     (if bsize = 0 \<or> length dataset \<le> cursor then []
      else take bsize (drop cursor dataset) #
           batches_from (cursor + bsize) bsize dataset)"
  by pat_completeness auto
termination
  by (relation "measure (\<lambda>(cursor, bsize, dataset). length dataset - cursor)") auto

declare batches_from.simps [simp del]

text \<open>
  Modelled from the spec: with an iteration count the cursor is kept modulo the
  length of the data, so that a batch runs on from the start of the sequence when it
  reaches the end. \<open>take_cyclic n cursor dataset\<close> reads \<open>n\<close> images from the cursor
  on; an empty sequence gives none.
\<close>

fun take_cyclic :: "nat \<Rightarrow> nat \<Rightarrow> 'a list \<Rightarrow> 'a list" where
  "take_cyclic 0 cursor dataset = []"
| "take_cyclic (Suc n) cursor dataset =
     (if dataset = [] then []
      else dataset ! (cursor mod length dataset) #
           take_cyclic n (Suc cursor mod length dataset) dataset)"

text \<open>
  Modelled from the spec: \<open>cycle_batches n cursor bsize dataset\<close> yields the
  \<open>n\<close> batches that are still to come.
\<close>

fun cycle_batches :: "nat \<Rightarrow> nat \<Rightarrow> nat \<Rightarrow> 'a list \<Rightarrow> 'a list list" where
  "cycle_batches 0 cursor bsize dataset = []"
| "cycle_batches (Suc n) cursor bsize dataset =
     take_cyclic bsize cursor dataset #
     cycle_batches n ((cursor + bsize) mod length dataset) bsize dataset"

text \<open>
  Modelled from the spec: the iterator itself; \<open>None\<close> is no iteration count.
\<close>

definition batcher :: "'a list \<Rightarrow> nat \<Rightarrow> nat option \<Rightarrow> 'a list list" where
  "batcher dataset bsize n_iterations =
     (case n_iterations of
        None \<Rightarrow> batches_from 0 bsize dataset
      | Some n \<Rightarrow> cycle_batches n 0 bsize dataset)"

subsection \<open>A small world\<close>

text \<open>
  A directory \<open>images\<close> with two files and a subdirectory, a server that answers every
  request with one row of three scores and knows one model \<open>dali\<close>, and the iterator
  of the spec for \<open>utils.batcher\<close>, with \<open>-1\<close> for no iteration count as in
  \<open>parse_args\<close>.
\<close>

definition world0 :: "(int, nat, nat) world" where
  "world0 =
     \<lparr>create_client = (\<lambda>u v. Inr ()),
      listdir = (\<lambda>p. if p = Some ''images'' then Inr [''a.jpg'', ''sub'', ''b.jpg'']
                     else if p = None then Inr [''notes.txt'']
                     else Inl OSError),
      isfile = (\<lambda>p. p = ''images/a.jpg'' \<or> p = ''images/b.jpg''),
      read_bytes = (\<lambda>p. if p = ''images/a.jpg'' then Inr [1, 2, 3]
                        else if p = ''images/b.jpg'' then Inr [7]
                        else Inl OSError),
      cv2_pipeline = (\<lambda>b. Inl Cv2Error),
      perf_counter_delta = (\<lambda>b. 0),
      utils_batcher = (\<lambda>dataset b n.
         (batcher dataset (nat b) (if n = - 1 then None else Some (nat n)), None)),
      infer = (\<lambda>k r. Inr [[0, 5, 2]]),
      get_inference_statistics = (\<lambda>m. if m = ''dali'' then Inr 1 else Inr 0)\<rparr>"

text \<open>The same world with a client that cannot be created.\<close>

definition world_down :: "(int, nat, nat) world" where
  "world_down = world0\<lparr>create_client := (\<lambda>u v. Inl ''unavailable'')\<rparr>"

text \<open>The same world with a server that reports no model.\<close>

definition world_nostats :: "(int, nat, nat) world" where
  "world_nostats = world0\<lparr>get_inference_statistics := (\<lambda>m. Inr 0)\<rparr>"

text \<open>A directory of 17 files, each of one byte.\<close>

definition world_many :: "(int, nat, nat) world" where
  "world_many =
     world0\<lparr>listdir := (\<lambda>p. Inr [''01'', ''02'', ''03'', ''04'', ''05'', ''06'', ''07'', ''08'',
                                 ''09'', ''10'', ''11'', ''12'', ''13'', ''14'', ''15'', ''16'',
                                 ''17'']),
            isfile := (\<lambda>p. p \<noteq> ''images''),
            read_bytes := (\<lambda>p. Inr [1])\<rparr>"

section \<open>Properties of \<open>array_from_list\<close>\<close>

lemma fold_max_eq_Max: "fold max xs (x::int) = Max (set (x # xs))"
proof (induction xs arbitrary: x)
  case Nil
  show ?case by simp
next
  case (Cons y ys)
  have "fold max (y # ys) x = Max (set (max y x # ys))"
    using Cons.IH [of "max y x"] by simp
  also have "\<dots> = Max (set (x # y # ys))"
    by (cases ys) (simp_all add: max.commute max.left_commute max.assoc)
  finally show ?case .
qed

lemma lengths_by_index: "map (\<lambda>x. int (length (arrays ! x))) [0..<length arrays] = map (\<lambda>a. int (length a)) arrays"
  by (rule nth_equalityI) simp_all

lemma py_max_lengths:
  assumes "arrays \<noteq> []"
  shows "py_max (map (\<lambda>a. int (length a)) arrays) = Inr (int (Max (length ` set arrays)))"
proof -
  obtain a rest where ar: "arrays = a # rest"
    using assms by (cases arrays) auto
  have ne: "length ` set arrays \<noteq> {}" and fin: "finite (length ` set arrays)"
    using assms by simp_all
  have "Max (set (map (\<lambda>a. int (length a)) arrays)) = Max (int ` (length ` set arrays))"
    by (simp add: image_image)
  also have "\<dots> = int (Max (length ` set arrays))"
    using mono_Max_commute [of int "length ` set arrays"] fin ne
    by (simp add: mono_def)
  finally have "Max (set (map (\<lambda>a. int (length a)) arrays)) = int (Max (length ` set arrays))" .
  then show ?thesis
    unfolding ar py_max.simps list.map fold_max_eq_Max by simp
qed

lemma pad_each_ok:
  assumes "\<forall>a \<in> set arrays. length a \<le> m"
  shows "pad_each (int m) arrays = Inr (map (padded_row m) arrays)"
  using assms
proof (induction arrays)
  case Nil
  show ?case by simp
next
  case (Cons a rest)
  then have "length a \<le> m" by simp
  then have "np_pad a (int m - int (length a)) = Inr (padded_row m a)"
    by (simp add: np_pad_def padded_row_def nat_diff_distrib')
  with Cons show ?case by simp
qed

lemma assert_same_shape_ok:
  assumes "\<forall>a \<in> set arrays. length a = length first"
  shows "assert_same_shape first arrays = Inr ()"
  using assms by (induction arrays) simp_all

lemma length_padded_row: "length a \<le> m \<Longrightarrow> length (padded_row m a) = m"
  by (simp add: padded_row_def)

lemma array_from_list_eq:
  assumes "arrays \<noteq> []"
  shows "array_from_list arrays = Inr (map (padded_row (Max (length ` set arrays))) arrays)"
proof -
  let ?m = "Max (length ` set arrays)"
  let ?p = "map (padded_row ?m) arrays"
  have le: "\<forall>a \<in> set arrays. length a \<le> ?m"
    by simp
  have len: "\<forall>r \<in> set ?p. length r = ?m"
    using le by (auto simp: length_padded_row)
  have pne: "?p \<noteq> []"
    using assms by simp
  then have hd_in: "hd ?p \<in> set ?p"
    by (rule hd_in_set)
  have same: "\<forall>r \<in> set ?p. length r = length (hd ?p)"
  proof
    fix r
    assume "r \<in> set ?p"
    then have "length r = ?m"
      using len by blast
    moreover have "length (hd ?p) = ?m"
      using len hd_in by blast
    ultimately show "length r = length (hd ?p)"
      by simp
  qed
  have stack: "np_stack ?p = Inr ?p"
  proof -
    obtain r rs where prs: "?p = r # rs"
      using pne by (cases ?p) auto
    have "list_all (\<lambda>arr. length arr = length r) ?p"
      using same prs by (simp add: list_all_iff)
    then show ?thesis
      unfolding np_stack_def prs by simp
  qed
  show ?thesis
    unfolding array_from_list_def Let_def lengths_by_index
    by (simp only: py_max_lengths [OF assms] pad_each_ok [OF le]
        assert_same_shape_ok [OF same] stack sum.case)
qed

text \<open>
  Claim C1. For every non-empty list of N byte buffers, of equal or of differing
  lengths, \<open>array_from_list\<close> returns a 2-D array of N rows; every row is as long as the
  longest input buffer, begins with the content of its buffer and is zero from there
  on. A list of one buffer succeeds and gives that buffer as the only row.
\<close>

theorem array_from_list_pads_and_stacks:
  fixes arrays :: "byte list list" and a :: "byte list"
  assumes "arrays \<noteq> []"
  shows "(\<exists>t. array_from_list arrays = Inr t \<and> length t = length arrays \<and>
           (\<forall>i < length arrays.
              length (t ! i) = Max (length ` set arrays) \<and>
              take (length (arrays ! i)) (t ! i) = arrays ! i \<and>
              drop (length (arrays ! i)) (t ! i) =
                replicate (Max (length ` set arrays) - length (arrays ! i)) 0)) \<and>
         array_from_list [a] = Inr [a]"
proof (rule conjI)
  let ?m = "Max (length ` set arrays)"
  let ?t = "map (padded_row ?m) arrays"
  have row: "length (?t ! i) = ?m \<and> take (length (arrays ! i)) (?t ! i) = arrays ! i \<and>
      drop (length (arrays ! i)) (?t ! i) = replicate (?m - length (arrays ! i)) 0"
    if "i < length arrays" for i
  proof -
    have "arrays ! i \<in> set arrays"
      using that by simp
    then have "length (arrays ! i) \<le> ?m"
      by simp
    then show ?thesis
      using that by (simp add: padded_row_def)
  qed
  have "array_from_list arrays = Inr ?t"
    using assms by (rule array_from_list_eq)
  then show "\<exists>t. array_from_list arrays = Inr t \<and> length t = length arrays \<and>
           (\<forall>i < length arrays.
              length (t ! i) = Max (length ` set arrays) \<and>
              take (length (arrays ! i)) (t ! i) = arrays ! i \<and>
              drop (length (arrays ! i)) (t ! i) =
                replicate (Max (length ` set arrays) - length (arrays ! i)) 0)"
    using row by auto
  show "array_from_list [a] = Inr [a]"
    using array_from_list_eq [of "[a]"] by (simp add: padded_row_def)
qed

text \<open>
  Two buffers of lengths 3 and 1: the second row is padded with two zero bytes.
\<close>

theorem array_from_list_pads_and_stacks_witness:
  "[[1, 2, 3], [7 :: byte]] \<noteq> [] \<and>
   array_from_list [[1, 2, 3], [7 :: byte]] = Inr [[1, 2, 3], [7, 0, 0]] \<and>
   array_from_list [[5, 6 :: byte]] = Inr [[5, 6]]"
proof -
  have ne: "[[1, 2, 3], [7 :: byte]] \<noteq> []"
    by simp
  have run: "array_from_list [[1, 2, 3], [7 :: byte]] = Inr [[1, 2, 3], [7, 0, 0]]"
    by (simp add: array_from_list_def np_pad_def np_stack_def numeral_2_eq_2)
  show ?thesis
    using array_from_list_pads_and_stacks [OF ne, of "[5, 6]"] run by simp
qed

text \<open>
  Claim C10. \<open>array_from_list\<close> needs a non-empty list: on the empty list the maximum
  of an empty sequence raises \<open>ValueError\<close>; on every non-empty list of 1-D arrays it
  returns an array; and on no list at all does the assertion that the padded arrays
  have one shape fail.
\<close>

theorem array_from_list_nonempty_only:
  fixes arrays :: "'a::zero list list"
  shows "array_from_list ([] :: 'a list list) = Inl ValueError \<and>
         (arrays \<noteq> [] \<longrightarrow> (\<exists>t. array_from_list arrays = Inr t)) \<and>
         array_from_list arrays \<noteq> Inl AssertionError"
proof (intro conjI impI)
  show empty: "array_from_list ([] :: 'a list list) = Inl ValueError"
    by (simp add: array_from_list_def)
  show "\<exists>t. array_from_list arrays = Inr t" if "arrays \<noteq> []"
    using array_from_list_eq [OF that] by blast
  show "array_from_list arrays \<noteq> Inl AssertionError"
  proof (cases "arrays = []")
    case True
    then show ?thesis using empty by simp
  next
    case False
    then show ?thesis using array_from_list_eq [OF False] by simp
  qed
qed

theorem array_from_list_nonempty_only_witness:
  "array_from_list ([] :: int list list) = Inl ValueError \<and>
   [[4, 5], [6 :: int]] \<noteq> [] \<and>
   (\<exists>t. array_from_list [[4, 5], [6 :: int]] = Inr t) \<and>
   array_from_list [[4, 5], [6 :: int]] \<noteq> Inl AssertionError"
  using array_from_list_nonempty_only [of "[[4, 5], [6 :: int]]"] by simp

section \<open>Properties of the run\<close>

subsection \<open>Events of the parts of a run\<close>


lemma and_then_events:
  "fst (and_then m k) = fst m @ (case snd m of Inl e \<Rightarrow> [] | Inr a \<Rightarrow> fst (k a))"
  by (cases m) (auto simp: and_then_def split: sum.splits prod.splits)

lemma and_then_result:
  "snd (and_then m k) = (case snd m of Inl e \<Rightarrow> Inl e | Inr a \<Rightarrow> snd (k a))"
  by (cases m) (auto simp: and_then_def split: sum.splits prod.splits)

lemma sub_and_then:
  assumes "set (fst m) \<subseteq> S" and "\<And>a. set (fst (k a)) \<subseteq> S"
  shows "set (fst (and_then m k)) \<subseteq> S"
  using assms by (auto simp: and_then_events split: sum.splits)

lemma sub_returns: "set (fst (returns a)) \<subseteq> S"
  by (simp add: returns_def)

lemma sub_raising: "set (fst (raising r)) \<subseteq> S"
  by (simp add: raising_def split: sum.splits)

lemma sub_sys_exit: "set (fst (sys_exit c)) \<subseteq> S"
  by (simp add: sys_exit_def)

lemma sub_emit: "ev \<in> S \<Longrightarrow> set (fst (emit ev)) \<subseteq> S"
  by (simp add: emit_def)

lemma sub_emit_all: "set evs \<subseteq> S \<Longrightarrow> set (fst (emit_all evs)) \<subseteq> S"
  by (simp add: emit_all_def)

lemma sub_if:
  "(c \<Longrightarrow> set (fst a) \<subseteq> S) \<Longrightarrow> (\<not> c \<Longrightarrow> set (fst b) \<subseteq> S) \<Longrightarrow>
   set (fst (if c then a else b)) \<subseteq> S"
  by simp

lemma sub_case_prod:
  "(\<And>a b. set (fst (f a b)) \<subseteq> S) \<Longrightarrow> set (fst (case p of (a, b) \<Rightarrow> f a b)) \<subseteq> S"
  by (cases p) simp

lemma sub_case_option:
  "set (fst a) \<subseteq> S \<Longrightarrow> (\<And>x. set (fst (f x)) \<subseteq> S) \<Longrightarrow>
   set (fst (case opt of None \<Rightarrow> a | Some x \<Rightarrow> f x)) \<subseteq> S"
  by (cases opt) simp_all

lemma sub_case_sum:
  "(\<And>x. set (fst (f x)) \<subseteq> S) \<Longrightarrow> (\<And>y. set (fst (g y)) \<subseteq> S) \<Longrightarrow>
   set (fst (case s of Inl x \<Rightarrow> f x | Inr y \<Rightarrow> g y)) \<subseteq> S"
  by (cases s) simp_all

lemmas sub_intros = sub_and_then sub_returns sub_raising sub_sys_exit sub_emit sub_emit_all
  sub_if sub_case_prod sub_case_option sub_case_sum

lemma infer_batch_events:
  assumes "\<And>r. Infer r \<in> S" and "\<And>l. Stdout l \<in> S"
  shows "set (fst (infer_batch w F ncols k latencies batch)) \<subseteq> S"
  unfolding infer_batch_def
  by (intro sub_intros assms) (auto intro: assms)

lemma infer_batches_events:
  assumes "\<And>r. Infer r \<in> S" and "\<And>l. Stdout l \<in> S"
  shows "set (fst (infer_batches w F ncols k latencies batches)) \<subseteq> S"
proof (induction batches arbitrary: k latencies)
  case Nil
  show ?case by (simp add: sub_returns)
next
  case (Cons b bs)
  show ?case
    unfolding infer_batches.simps
    by (rule sub_and_then) (rule infer_batch_events [OF assms], rule Cons.IH)
qed

lemma load_each_events:
  assumes "\<And>p. Open_rb p \<in> S"
  shows "set (fst (load_each w ps)) \<subseteq> S"
proof (induction ps)
  case Nil
  show ?case by (simp add: sub_returns)
next
  case (Cons p ps)
  show ?case
    unfolding load_each.simps load_image_def
    by (intro sub_intros assms Cons.IH)
qed

lemma load_images_events:
  assumes "\<And>p. Open_rb p \<in> S" and "\<And>p. Listdir p \<in> S" and "\<And>p. Isfile p \<in> S"
  shows "set (fst (load_images w dp m)) \<subseteq> S"
  unfolding load_images_def
  by (intro sub_intros assms load_each_events) (auto intro: assms)

lemma run_inference_events:
  assumes "\<And>p. Open_rb p \<in> S" and "\<And>p. Listdir p \<in> S" and "\<And>p. Isfile p \<in> S"
    and "\<And>r. Infer r \<in> S" and "\<And>l. Stdout l \<in> S" and "\<And>u v. InferenceServerClient u v \<in> S"
  shows "set (fst (run_inference w F)) \<subseteq> S"
  unfolding run_inference_def
  by (intro sub_intros assms load_images_events infer_batches_events)

lemma no_query_before_report:
  "Get_inference_statistics nm \<notin> set (fst (run_inference w F))"
proof -
  have "set (fst (run_inference w F)) \<subseteq> - range Get_inference_statistics"
    by (rule run_inference_events) auto
  then show ?thesis by auto
qed


lemma take_action_keeps_paths:
  assumes "take_action F a = Namespace F'" and "\<forall>p. a \<noteq> Img p" and "\<forall>d. a \<noteq> Img_dir d"
  shows "img F' = img F \<and> img_dir F' = img_dir F"
  using assms by (cases a) auto

lemma parse_known_conflict:
  assumes "\<not> (img F \<noteq> None \<and> img_dir F \<noteq> None)"
    and "img F \<noteq> None \<or> (\<exists>p. Img p \<in> set argv)"
    and "img_dir F \<noteq> None \<or> (\<exists>p. Img_dir p \<in> set argv)"
  shows "parse_known F argv = Usage_exit \<or> parse_known F argv = Help_exit"
  using assms
proof (induction argv arbitrary: F)
  case Nil
  then show ?case by auto
next
  case (Cons a rest)
  show ?case
  proof (cases "take_action F a")
    case (Namespace F')
    have "parse_known F' rest = Usage_exit \<or> parse_known F' rest = Help_exit"
    proof (rule Cons.IH)
      show "\<not> (img F' \<noteq> None \<and> img_dir F' \<noteq> None)"
        using Namespace Cons.prems(1) by (cases a) (auto split: if_splits)
      show "img F' \<noteq> None \<or> (\<exists>p. Img p \<in> set rest)"
        using Namespace Cons.prems(2) by (cases a) (auto split: if_splits)
      show "img_dir F' \<noteq> None \<or> (\<exists>p. Img_dir p \<in> set rest)"
        using Namespace Cons.prems(3) by (cases a) (auto split: if_splits)
    qed
    with Namespace show ?thesis by simp
  next
    case Usage_exit
    then show ?thesis by simp
  next
    case Help_exit
    then show ?thesis by simp
  qed
qed

lemma parse_known_conflict_first:
  assumes "\<not> (img F \<noteq> None \<and> img_dir F \<noteq> None)"
    and "img F \<noteq> None \<or> (\<exists>p. Img p \<in> set pre)"
    and "img_dir F \<noteq> None \<or> (\<exists>p. Img_dir p \<in> set pre)"
    and "Help \<notin> set pre"
  shows "parse_known F (pre @ rest) = Usage_exit"
  using assms
proof (induction pre arbitrary: F)
  case Nil
  then show ?case by auto
next
  case (Cons a pre)
  show ?case
  proof (cases "take_action F a")
    case (Namespace F')
    have "parse_known F' (pre @ rest) = Usage_exit"
    proof (rule Cons.IH)
      show "\<not> (img F' \<noteq> None \<and> img_dir F' \<noteq> None)"
        using Namespace Cons.prems(1) by (cases a) (auto split: if_splits)
      show "img F' \<noteq> None \<or> (\<exists>p. Img p \<in> set pre)"
        using Namespace Cons.prems(2) by (cases a) (auto split: if_splits)
      show "img_dir F' \<noteq> None \<or> (\<exists>p. Img_dir p \<in> set pre)"
        using Namespace Cons.prems(3) by (cases a) (auto split: if_splits)
      show "Help \<notin> set pre"
        using Cons.prems(4) by simp
    qed
    with Namespace show ?thesis by simp
  next
    case Usage_exit
    then show ?thesis by simp
  next
    case Help_exit
    then have "a = Help"
      by (cases a) (auto split: if_splits)
    then show ?thesis
      using Cons.prems(4) by simp
  qed
qed

lemma parse_known_neither:
  assumes "\<forall>p. Img p \<notin> set argv" and "\<forall>p. Img_dir p \<notin> set argv"
    and "parse_known F argv = Namespace F'"
  shows "img F' = img F \<and> img_dir F' = img_dir F"
  using assms
proof (induction argv arbitrary: F)
  case Nil
  then show ?case by simp
next
  case (Cons a rest)
  from Cons.prems(3) obtain F1 where F1: "take_action F a = Namespace F1"
    and rest: "parse_known F1 rest = Namespace F'"
    by (cases "take_action F a") simp_all
  have "img F1 = img F \<and> img_dir F1 = img_dir F"
    using F1 Cons.prems(1,2) by (intro take_action_keeps_paths [of F a]) auto
  moreover have "img F' = img F1 \<and> img_dir F' = img_dir F1"
    using Cons.prems(1,2) rest by (intro Cons.IH) auto
  ultimately show ?case by simp
qed

lemma parse_known_accepts:
  assumes "\<forall>p. Img p \<notin> set argv" and "\<forall>p. Img_dir p \<notin> set argv"
    and "Help \<notin> set argv" and "Invalid \<notin> set argv" and "Ambiguous \<notin> set argv"
  shows "\<exists>F'. parse_known F argv = Namespace F'"
  using assms
proof (induction argv arbitrary: F)
  case Nil
  show ?case by simp
next
  case (Cons a rest)
  obtain F1 where F1: "take_action F a = Namespace F1"
    using Cons.prems by (cases a) auto
  have "\<exists>F'. parse_known F1 rest = Namespace F'"
    using Cons.prems by (intro Cons.IH) auto
  with F1 show ?case by simp
qed

lemma main_usage:
  "parse_args argv = Usage_exit \<Longrightarrow>
   main w argv = \<lparr>ending = SysExit (Some 2), events = [Usage_error]\<rparr>"
  by (simp add: main_def main_proc_def and_then_def emit_def sys_exit_def)

lemma main_help:
  "parse_args argv = Help_exit \<Longrightarrow>
   main w argv = \<lparr>ending = SysExit (Some 0), events = [Help_message]\<rparr>"
  by (simp add: main_def main_proc_def and_then_def emit_def sys_exit_def)

lemma main_events:
  "parse_args argv = Namespace F \<Longrightarrow>
   events (main w argv) = fst (and_then (run_inference w F) (report w F))"
  by (simp add: main_def main_proc_def split: prod.splits sum.splits)

lemma main_ending:
  "parse_args argv = Namespace F \<Longrightarrow>
   ending (main w argv) =
     (case snd (and_then (run_inference w F) (report w F)) of Inl e \<Rightarrow> e | Inr u \<Rightarrow> Returned)"
  by (simp add: main_def main_proc_def split: prod.splits sum.splits)

lemma report_failed:
  assumes "get_inference_statistics w ''dali'' = Inr n" and "n \<noteq> 1"
  shows "report w F latencies =
    ([Get_inference_statistics ''dali'', Stdout (Text ''FAILED: Inference Statistics'')],
     Inl (SysExit (Some 1)))"
  using assms by (simp add: report_def and_then_def emit_def raising_def sys_exit_def)

lemma report_query:
  assumes "Get_inference_statistics nm \<in> set (fst (report w F latencies))"
  shows "nm = ''dali''"
proof -
  have "set (fst (report w F latencies)) \<subseteq>
      insert (Get_inference_statistics ''dali'') (range Stdout)"
    unfolding report_def by (intro sub_intros) auto
  with assms show ?thesis by auto
qed

text \<open>
  Claim C6 says that every invocation with both \<open>--img\<close> and \<open>--img_dir\<close> fails with
  a usage error and a non-zero exit status. With \<open>-h\<close> in front of them the help
  action is taken first: the run prints the help and ends with exit status 0.
\<close>

theorem both_image_options_help_counterexample:
  "Img ''a.jpg'' \<in> set [Help, Img ''a.jpg'', Img_dir ''images''] \<and>
   Img_dir ''images'' \<in> set [Help, Img ''a.jpg'', Img_dir ''images''] \<and>
   main world0 [Help, Img ''a.jpg'', Img_dir ''images''] =
     \<lparr>ending = SysExit (Some 0), events = [Help_message]\<rparr> \<and>
   exit_code (ending (main world0 [Help, Img ''a.jpg'', Img_dir ''images''])) = 0"
  by (simp add: main_def main_proc_def parse_args_def and_then_def emit_def sys_exit_def)

text \<open>
  Claim C6, amended. Every invocation that gives both \<open>--img\<close> and \<open>--img_dir\<close> ends
  in \<open>parse_args\<close>: the run is the usage error with exit status 2 or the help text
  with exit status 0 and nothing else, so no client was constructed and no path of
  the file system was touched. When no \<open>-h\<close> stands before the second of the two
  options (\<open>pre\<close> is a beginning of the invocation that holds both), it is the usage
  error with exit status 2.
\<close>

theorem both_image_options_end_in_parse_args:
  assumes "argv = pre @ rest" and "Img p \<in> set pre" and "Img_dir d \<in> set pre"
  shows "(main w argv = \<lparr>ending = SysExit (Some 2), events = [Usage_error]\<rparr> \<or>
          main w argv = \<lparr>ending = SysExit (Some 0), events = [Help_message]\<rparr>) \<and>
         (Help \<notin> set pre \<longrightarrow>
            main w argv = \<lparr>ending = SysExit (Some 2), events = [Usage_error]\<rparr> \<and>
            exit_code (ending (main w argv)) = 2)"
proof (intro conjI impI)
  have both: "Img p \<in> set argv" "Img_dir d \<in> set argv"
    using assms by simp_all
  have "parse_known default_flags argv = Usage_exit \<or> parse_known default_flags argv = Help_exit"
    using both by (intro parse_known_conflict) (auto simp: default_flags_def)
  then have "parse_args argv = Usage_exit \<or> parse_args argv = Help_exit"
    by (auto simp: parse_args_def)
  then show "main w argv = \<lparr>ending = SysExit (Some 2), events = [Usage_error]\<rparr> \<or>
      main w argv = \<lparr>ending = SysExit (Some 0), events = [Help_message]\<rparr>"
    using main_usage [of argv w] main_help [of argv w] by blast
next
  assume "Help \<notin> set pre"
  then have "parse_known default_flags (pre @ rest) = Usage_exit"
    using assms(2,3) by (intro parse_known_conflict_first) (auto simp: default_flags_def)
  then have "parse_args argv = Usage_exit"
    unfolding assms(1) by (simp add: parse_args_def)
  then have run: "main w argv = \<lparr>ending = SysExit (Some 2), events = [Usage_error]\<rparr>"
    by (rule main_usage)
  then show "main w argv = \<lparr>ending = SysExit (Some 2), events = [Usage_error]\<rparr>"
    and "exit_code (ending (main w argv)) = 2"
    by simp_all
qed

theorem both_image_options_end_in_parse_args_witness:
  "[Img ''a.jpg'', Verbose, Img_dir ''images'', Help] =
     [Img ''a.jpg'', Verbose, Img_dir ''images''] @ [Help] \<and>
   Img ''a.jpg'' \<in> set [Img ''a.jpg'', Verbose, Img_dir ''images''] \<and>
   Img_dir ''images'' \<in> set [Img ''a.jpg'', Verbose, Img_dir ''images''] \<and>
   Help \<notin> set [Img ''a.jpg'', Verbose, Img_dir ''images''] \<and>
   main world0 [Img ''a.jpg'', Verbose, Img_dir ''images'', Help] =
     \<lparr>ending = SysExit (Some 2), events = [Usage_error]\<rparr> \<and>
   exit_code (ending (main world0 [Img ''a.jpg'', Verbose, Img_dir ''images'', Help])) = 2"
  using both_image_options_end_in_parse_args
    [of "[Img ''a.jpg'', Verbose, Img_dir ''images'', Help]"
        "[Img ''a.jpg'', Verbose, Img_dir ''images'']" "[Help]" "''a.jpg''" "''images''" world0]
  by simp

text \<open>
  Claim C2 says that a run in which the client cannot be created ends with a non-zero
  exit status. The handler prints the message and calls \<open>sys.exit()\<close> without a
  code: the exit status of every such run is 0.
\<close>

theorem connection_failure_exits_with_0:
  assumes "parse_args argv = Namespace F" and "create_client w (url F) (verbose F) = Inl msg"
  shows "main w argv =
           \<lparr>ending = SysExit None,
            events = [InferenceServerClient (url F) (verbose F),
                      Stdout (Text (''channel creation failed: '' @ msg))]\<rparr> \<and>
         exit_code (ending (main w argv)) = 0"
  using assms
  by (simp add: main_def main_proc_def run_inference_def and_then_def emit_def sys_exit_def)

theorem connection_failure_exits_with_0_witness:
  "parse_args [Img_dir ''images''] = Namespace (default_flags\<lparr>img_dir := Some ''images''\<rparr>) \<and>
   create_client world_down (url (default_flags\<lparr>img_dir := Some ''images''\<rparr>))
     (verbose (default_flags\<lparr>img_dir := Some ''images''\<rparr>)) = Inl ''unavailable'' \<and>
   main world_down [Img_dir ''images''] =
     \<lparr>ending = SysExit None,
      events = [InferenceServerClient ''localhost:8001'' False,
                Stdout (Text ''channel creation failed: unavailable'')]\<rparr> \<and>
   exit_code (ending (main world_down [Img_dir ''images''])) = 0"
proof -
  have p: "parse_args [Img_dir ''images''] = Namespace (default_flags\<lparr>img_dir := Some ''images''\<rparr>)"
    by (simp add: parse_args_def default_flags_def)
  have c: "create_client world_down (url (default_flags\<lparr>img_dir := Some ''images''\<rparr>))
     (verbose (default_flags\<lparr>img_dir := Some ''images''\<rparr>)) = Inl ''unavailable''"
    by (simp add: world_down_def)
  show ?thesis
    using connection_failure_exits_with_0 [OF p c] p c by (simp add: default_flags_def)
qed

text \<open>
  Claim C3. In every run in which the server is asked for its statistics and reports
  a number of models other than 1, the program prints
  \<open>FAILED: Inference Statistics\<close> right after the query and ends by \<open>sys.exit(1)\<close>:
  the exit status is 1 and the ending is no uncaught exception.
\<close>

theorem statistics_mismatch_fails:
  assumes "Get_inference_statistics nm \<in> set (events (main w argv))"
    and "get_inference_statistics w nm = Inr n" and "n \<noteq> 1"
  shows "ending (main w argv) = SysExit (Some 1) \<and>
         exit_code (ending (main w argv)) = 1 \<and>
         (\<exists>before. events (main w argv) =
            before @ [Get_inference_statistics nm, Stdout (Text ''FAILED: Inference Statistics'')])"
proof (cases "parse_args argv")
  case Usage_exit
  then show ?thesis
    using assms(1) by (simp add: main_usage)
next
  case Help_exit
  then show ?thesis
    using assms(1) by (simp add: main_help)
next
  case (Namespace F)
  note ev = main_events [OF Namespace, of w] and en = main_ending [OF Namespace, of w]
  have "\<exists>latencies. snd (run_inference w F) = Inr latencies \<and>
      Get_inference_statistics nm \<in> set (fst (report w F latencies))"
    using assms(1) no_query_before_report [of nm w F]
    unfolding ev and_then_events by (cases "snd (run_inference w F)") auto
  then obtain latencies where ok: "snd (run_inference w F) = Inr latencies"
    and inrep: "Get_inference_statistics nm \<in> set (fst (report w F latencies))"
    by blast
  have nm: "nm = ''dali''"
    using inrep by (rule report_query)
  have rep: "report w F latencies =
    ([Get_inference_statistics ''dali'', Stdout (Text ''FAILED: Inference Statistics'')],
     Inl (SysExit (Some 1)))"
    using assms(2,3) unfolding nm by (rule report_failed)
  have "ending (main w argv) = SysExit (Some 1)"
    unfolding en and_then_result ok by (simp add: rep)
  moreover have "events (main w argv) = fst (run_inference w F) @
      [Get_inference_statistics nm, Stdout (Text ''FAILED: Inference Statistics'')]"
    unfolding ev and_then_events ok by (simp add: rep nm)
  ultimately show ?thesis
    by auto
qed


theorem statistics_mismatch_fails_witness:
  "Get_inference_statistics ''dali'' \<in> set (events (main world_nostats [Img_dir ''images''])) \<and>
   get_inference_statistics world_nostats ''dali'' = Inr 0 \<and> (0::nat) \<noteq> 1 \<and>
   ending (main world_nostats [Img_dir ''images'']) = SysExit (Some 1) \<and>
   exit_code (ending (main world_nostats [Img_dir ''images''])) = 1 \<and>
   (\<exists>before. events (main world_nostats [Img_dir ''images'']) =
      before @ [Get_inference_statistics ''dali'', Stdout (Text ''FAILED: Inference Statistics'')])"
proof -
  have q: "Get_inference_statistics ''dali'' \<in> set (events (main world_nostats [Img_dir ''images'']))"
    by (simp add: main_def main_proc_def parse_args_def default_flags_def run_inference_def
        report_def load_images_def img_paths_def load_image_def path_join_def
        array_from_list_def np_pad_def np_stack_def infer_batch_def batcher_def
        batches_from.simps
        and_then_def emit_def emit_all_def returns_def raising_def sys_exit_def
        world_nostats_def world0_def)
  have s: "get_inference_statistics world_nostats ''dali'' = Inr 0"
    by (simp add: world_nostats_def)
  show ?thesis
    using statistics_mismatch_fails [OF q s] q s by simp
qed

subsection \<open>Query, image options and the cap on the images\<close>


lemmas run_defs = main_def main_proc_def parse_args_def default_flags_def run_inference_def
        report_def load_images_def img_paths_def load_image_def path_join_def
        array_from_list_def np_pad_def np_stack_def infer_batch_def batcher_def
        batches_from.simps
        and_then_def emit_def emit_all_def returns_def raising_def sys_exit_def

text \<open>
  Claim C4 says that the statistics are asked for the model the run was configured
  with. Every statistics query of every run names \<open>dali\<close>; in a run with the default
  model name \<open>dali_backend\<close> the requests go to that model and the query to
  \<open>dali\<close>.
\<close>

theorem statistics_query_is_for_dali:
  "(Get_inference_statistics nm \<in> set (events (main w argv)) \<longrightarrow> nm = ''dali'') \<and>
   model_name default_flags = ''dali_backend'' \<and>
   main world0 [Img_dir ''images'', Batch_size 2] =
     \<lparr>ending = Returned,
      events =
        [InferenceServerClient ''localhost:8001'' False,
         Stdout (Text ''Loading images''),
         Listdir (Some ''images''), Isfile (Some ''images''),
         Isfile (Some ''images/a.jpg''), Isfile (Some ''images/sub''),
         Isfile (Some ''images/b.jpg''),
         Open_rb ''images/a.jpg'', Open_rb ''images/b.jpg'',
         Stdout (Text ''Images loaded''),
         Infer \<lparr>req_model_name = ''dali_backend'', req_input_name = ''INPUT'',
                req_input_shape = [2, 3], req_input_dtype = ''UINT8'',
                req_output_name = ''OUTPUT'', req_data = Inl [[1, 2, 3], [7, 0, 0]]\<rparr>,
         Get_inference_statistics ''dali'',
         Stdout (Text ''PASS: infer'')]\<rparr>"
proof (intro conjI impI)
  assume query: "Get_inference_statistics nm \<in> set (events (main w argv))"
  show "nm = ''dali''"
  proof (cases "parse_args argv")
    case Usage_exit
    then show ?thesis
      using query by (simp add: main_usage)
  next
    case Help_exit
    then show ?thesis
      using query by (simp add: main_help)
  next
    case (Namespace F)
    have "Get_inference_statistics nm \<in> set (fst (run_inference w F)) \<or>
        (\<exists>latencies. Get_inference_statistics nm \<in> set (fst (report w F latencies)))"
      using query unfolding main_events [OF Namespace] and_then_events
      by (auto split: sum.splits)
    then show ?thesis
      using no_query_before_report report_query by blast
  qed
next
  show "model_name default_flags = ''dali_backend''"
    by (simp add: default_flags_def)
next
  show "main world0 [Img_dir ''images'', Batch_size 2] =
     \<lparr>ending = Returned,
      events =
        [InferenceServerClient ''localhost:8001'' False,
         Stdout (Text ''Loading images''),
         Listdir (Some ''images''), Isfile (Some ''images''),
         Isfile (Some ''images/a.jpg''), Isfile (Some ''images/sub''),
         Isfile (Some ''images/b.jpg''),
         Open_rb ''images/a.jpg'', Open_rb ''images/b.jpg'',
         Stdout (Text ''Images loaded''),
         Infer \<lparr>req_model_name = ''dali_backend'', req_input_name = ''INPUT'',
                req_input_shape = [2, 3], req_input_dtype = ''UINT8'',
                req_output_name = ''OUTPUT'', req_data = Inl [[1, 2, 3], [7, 0, 0]]\<rparr>,
         Get_inference_statistics ''dali'',
         Stdout (Text ''PASS: infer'')]\<rparr>"
    by (simp add: run_defs world0_def numeral_2_eq_2)
qed

theorem statistics_query_is_for_dali_witness:
  "Get_inference_statistics ''dali'' \<in>
     set (events (main world0 [Img_dir ''images'', Batch_size 2])) \<and>
   Get_inference_statistics ''dali_backend'' \<notin>
     set (events (main world0 [Img_dir ''images'', Batch_size 2]))"
  using statistics_query_is_for_dali [of "''dali_backend''" world0 "[Img_dir ''images'', Batch_size 2]"]
  by auto

text \<open>
  Claim C7 says that a run without \<open>--img\<close> and \<open>--img_dir\<close> goes on with a
  default image source. No such source exists: in the small world the run without
  options ends in \<open>load_images\<close> with the \<open>TypeError\<close> of \<open>os.path.isfile(None)\<close>.
\<close>

theorem no_image_option_counterexample:
  "main world0 [] =
     \<lparr>ending = Uncaught TypeError,
      events = [InferenceServerClient ''localhost:8001'' False,
                Stdout (Text ''Loading images''), Listdir None, Isfile None]\<rparr>"
  by (simp add: run_defs world0_def)

lemma load_images_None:
  "load_images w None 15 =
     (case listdir w None of
        Inl e \<Rightarrow> ([Listdir None], Inl (Uncaught e))
      | Inr names \<Rightarrow> ([Listdir None, Isfile None], Inl (Uncaught TypeError)))"
  by (simp add: load_images_def and_then_def emit_def raising_def split: sum.splits)

lemma opened_append: "opened (xs @ ys) = opened xs @ opened ys"
  by (induction xs rule: opened.induct) simp_all

lemma opened_none:
  assumes "set evs \<subseteq> - range Open_rb"
  shows "opened evs = []"
  using assms by (induction evs rule: opened.induct) auto

lemma opened_and_then:
  "opened (fst (and_then m k)) =
     opened (fst m) @ (case snd m of Inl e \<Rightarrow> [] | Inr a \<Rightarrow> opened (fst (k a)))"
  by (simp add: and_then_events opened_append split: sum.splits)

text \<open>
  Claim C7, amended. For every invocation that gives neither \<open>--img\<close> nor
  \<open>--img_dir\<close>, \<open>parse_args\<close> puts no default image source in their place: whenever it
  yields a namespace, both paths in it are \<open>None\<close>; and it yields one whenever the
  invocation holds no \<open>-h\<close> and no argument that \<open>argparse\<close> rejects.
\<close>

theorem no_image_option_no_default:
  assumes "\<forall>p. Img p \<notin> set argv" and "\<forall>d. Img_dir d \<notin> set argv"
  shows "(\<forall>F. parse_args argv = Namespace F \<longrightarrow> img F = None \<and> img_dir F = None) \<and>
         (Help \<notin> set argv \<and> Invalid \<notin> set argv \<and> Unrecognized \<notin> set argv \<and>
          Ambiguous \<notin> set argv \<longrightarrow>
            (\<exists>F. parse_args argv = Namespace F))"
proof (intro conjI allI impI)
  fix F
  assume "parse_args argv = Namespace F"
  then have "parse_known default_flags argv = Namespace F"
    by (auto simp: parse_args_def split: if_splits parsed.splits)
  then have "img F = img default_flags \<and> img_dir F = img_dir default_flags"
    using assms by (intro parse_known_neither)
  then show "img F = None" and "img_dir F = None"
    by (simp_all add: default_flags_def)
next
  assume ok: "Help \<notin> set argv \<and> Invalid \<notin> set argv \<and> Unrecognized \<notin> set argv \<and>
      Ambiguous \<notin> set argv"
  then obtain F where "parse_known default_flags argv = Namespace F"
    using parse_known_accepts [OF assms, of default_flags] by blast
  then show "\<exists>F. parse_args argv = Namespace F"
    using ok by (simp add: parse_args_def)
qed

theorem no_image_option_no_default_witness:
  "(\<forall>p. Img p \<notin> set [Verbose, Batch_size 2]) \<and> (\<forall>d. Img_dir d \<notin> set [Verbose, Batch_size 2]) \<and>
   Help \<notin> set [Verbose, Batch_size 2] \<and> Invalid \<notin> set [Verbose, Batch_size 2] \<and>
   Unrecognized \<notin> set [Verbose, Batch_size 2] \<and> Ambiguous \<notin> set [Verbose, Batch_size 2] \<and>
   parse_args [Verbose, Batch_size 2] =
     Namespace (default_flags\<lparr>verbose := True, batch_size := 2\<rparr>) \<and>
   img (default_flags\<lparr>verbose := True, batch_size := 2\<rparr>) = None \<and>
   img_dir (default_flags\<lparr>verbose := True, batch_size := 2\<rparr>) = None"
proof -
  have a: "\<forall>p. Img p \<notin> set [Verbose, Batch_size 2]"
    by simp
  have b: "\<forall>d. Img_dir d \<notin> set [Verbose, Batch_size 2]"
    by simp
  have p: "parse_args [Verbose, Batch_size 2] =
      Namespace (default_flags\<lparr>verbose := True, batch_size := 2\<rparr>)"
    by (simp add: parse_args_def)
  show ?thesis
    using no_image_option_no_default [OF a b] p by simp
qed

lemma load_each_opened: "prefix (opened (fst (load_each w ps))) ps"
proof (induction ps)
  case Nil
  show ?case by (simp add: returns_def)
next
  case (Cons p ps)
  have "opened (fst (load_each w (p # ps))) =
      p # (case read_bytes w p of Inl e \<Rightarrow> [] | Inr b \<Rightarrow> opened (fst (load_each w ps)))"
    by (simp add: load_image_def opened_and_then and_then_result emit_def raising_def
        returns_def split: sum.splits)
  then show ?case
    using Cons.IH by (simp split: sum.splits)
qed

lemma load_each_length:
  "snd (load_each w ps) = Inr images \<Longrightarrow> length images = length ps"
proof (induction ps arbitrary: images)
  case Nil
  then show ?case by (simp add: returns_def)
next
  case (Cons p ps)
  from Cons.prems obtain b rest where "snd (load_each w ps) = Inr rest" "images = b # rest"
    by (auto simp: and_then_result returns_def split: sum.splits)
  then show ?case
    using Cons.IH by simp
qed

lemma opened_isfile: "opened (map (\<lambda>f. Isfile (g f)) names) = []"
  by (induction names) simp_all

lemma load_images_opened:
  assumes "listdir w (Some d) = Inr names"
  shows "opened (fst (load_images w (Some d) 15)) =
           opened (fst (load_each w (take 15 (img_paths w d names))))"
  using assms
  by (simp add: load_images_def opened_and_then and_then_result emit_def emit_all_def
      raising_def returns_def opened_isfile split: sum.splits)

lemma load_images_opened_fail:
  assumes "listdir w dp = Inl e"
  shows "opened (fst (load_images w dp 15)) = []"
  using assms
  by (simp add: load_images_def opened_and_then and_then_result emit_def raising_def)

lemma load_images_opened_le: "length (opened (fst (load_images w dp 15))) \<le> 15"
proof (cases dp)
  case None
  then show ?thesis
    by (simp add: load_images_None split: sum.splits)
next
  case (Some d)
  show ?thesis
  proof (cases "listdir w (Some d)")
    case (Inl e)
    then show ?thesis
      unfolding Some by (simp add: load_images_opened_fail)
  next
    case (Inr names)
    have "length (opened (fst (load_each w (take 15 (img_paths w d names))))) \<le>
        length (take 15 (img_paths w d names))"
      by (rule prefix_length_le) (rule load_each_opened)
    then show ?thesis
      unfolding Some load_images_opened [OF Inr] by simp
  qed
qed

lemma load_images_length:
  assumes "snd (load_images w dp 15) = Inr images"
  shows "length images \<le> 15"
proof -
  from assms obtain d names where dp: "dp = Some d"
    and "snd (load_each w (take 15 (img_paths w d names))) = Inr images"
    by (auto simp: load_images_def and_then_result emit_def emit_all_def raising_def
        returns_def split: sum.splits option.splits if_splits)
  then have "length images = length (take 15 (img_paths w d names))"
    by (intro load_each_length)
  then show ?thesis
    by simp
qed

lemma run_inference_opened:
  "opened (fst (run_inference w F)) =
     (case create_client w (url F) (verbose F) of
        Inl msg \<Rightarrow> []
      | Inr c \<Rightarrow> opened (fst (load_images w (if img_dir F \<noteq> None then img_dir F else img F) 15)))"
proof -
  define src where "src = (if img_dir F \<noteq> None then img_dir F else img F)"
  have loop: "opened (fst (infer_batches w F n k l bs)) = []" for n k l bs
    by (rule opened_none) (rule infer_batches_events; auto)
  have tail: "opened (fst (case r of None \<Rightarrow> returns l | Some e \<Rightarrow> raising (Inl e))) = []"
    for r :: "error option" and l :: "'c list list"
    by (cases r) (simp_all add: returns_def raising_def)
  show ?thesis
    unfolding run_inference_def src_def [symmetric]
    by (simp add: opened_and_then and_then_result emit_def raising_def sys_exit_def
        returns_def loop tail split: sum.splits prod.splits)
qed

lemma report_opened: "opened (fst (report w F l)) = []"
proof (rule opened_none)
  show "set (fst (report w F l)) \<subseteq> - range Open_rb"
    unfolding report_def by (intro sub_intros) auto
qed

lemma main_opened:
  assumes "parse_args argv = Namespace F"
  shows "opened (events (main w argv)) = opened (fst (run_inference w F))"
  unfolding main_events [OF assms]
  by (simp add: opened_and_then report_opened split: sum.splits)

text \<open>
  Claim C9. In every run at most 15 image files are opened: \<open>main\<close> calls
  \<open>load_images\<close> with \<open>max_images=15\<close>, the files opened are a prefix of the first 15
  entries of \<open>img_paths\<close> (the files of the listing, in its order), and what
  \<open>load_images\<close> returns to \<open>main\<close> has at most 15 images.
\<close>

theorem at_most_15_images:
  "length (opened (events (main w argv))) \<le> 15 \<and>
   (\<forall>F d names. parse_args argv = Namespace F \<longrightarrow>
      (if img_dir F \<noteq> None then img_dir F else img F) = Some d \<longrightarrow>
      listdir w (Some d) = Inr names \<longrightarrow>
      prefix (opened (events (main w argv))) (take 15 (img_paths w d names))) \<and>
   (\<forall>dir_path images. snd (load_images w dir_path 15) = Inr images \<longrightarrow> length images \<le> 15)"
proof (intro conjI allI impI)
  show "length (opened (events (main w argv))) \<le> 15"
  proof (cases "parse_args argv")
    case Usage_exit
    then show ?thesis by (simp add: main_usage)
  next
    case Help_exit
    then show ?thesis by (simp add: main_help)
  next
    case (Namespace F)
    show ?thesis
      unfolding main_opened [OF Namespace] run_inference_opened
      by (cases "create_client w (url F) (verbose F)") (simp_all add: load_images_opened_le)
  qed
next
  fix F d names
  assume F: "parse_args argv = Namespace F"
    and d: "(if img_dir F \<noteq> None then img_dir F else img F) = Some d"
    and names: "listdir w (Some d) = Inr names"
  show "prefix (opened (events (main w argv))) (take 15 (img_paths w d names))"
    unfolding main_opened [OF F] run_inference_opened d load_images_opened [OF names]
    by (cases "create_client w (url F) (verbose F)") (simp_all add: load_each_opened)
next
  fix dir_path images
  assume "snd (load_images w dir_path 15) = Inr images"
  then show "length images \<le> 15"
    by (rule load_images_length)
qed

theorem at_most_15_images_witness:
  "parse_args [Img_dir ''images'', Batch_size 15] =
     Namespace (default_flags\<lparr>img_dir := Some ''images'', batch_size := 15\<rparr>) \<and>
   listdir world_many (Some ''images'') =
     Inr [''01'', ''02'', ''03'', ''04'', ''05'', ''06'', ''07'', ''08'', ''09'', ''10'', ''11'',
          ''12'', ''13'', ''14'', ''15'', ''16'', ''17''] \<and>
   opened (events (main world_many [Img_dir ''images'', Batch_size 15])) =
     [''images/01'', ''images/02'', ''images/03'', ''images/04'', ''images/05'',
      ''images/06'', ''images/07'', ''images/08'', ''images/09'', ''images/10'',
      ''images/11'', ''images/12'', ''images/13'', ''images/14'', ''images/15''] \<and>
   length (opened (events (main world_many [Img_dir ''images'', Batch_size 15]))) \<le> 15 \<and>
   prefix (opened (events (main world_many [Img_dir ''images'', Batch_size 15])))
     (take 15 (img_paths world_many ''images''
        [''01'', ''02'', ''03'', ''04'', ''05'', ''06'', ''07'', ''08'', ''09'', ''10'', ''11'',
         ''12'', ''13'', ''14'', ''15'', ''16'', ''17'']))"
proof -
  let ?argv = "[Img_dir ''images'', Batch_size 15]"
  let ?F = "default_flags\<lparr>img_dir := Some ''images'', batch_size := 15\<rparr>"
  let ?names = "[''01'', ''02'', ''03'', ''04'', ''05'', ''06'', ''07'', ''08'', ''09'', ''10'',
    ''11'', ''12'', ''13'', ''14'', ''15'', ''16'', ''17'']"
  have p: "parse_args ?argv = Namespace ?F"
    by (simp add: parse_args_def default_flags_def)
  have d: "(if img_dir ?F \<noteq> None then img_dir ?F else img ?F) = Some ''images''"
    by simp
  have l: "listdir world_many (Some ''images'') = Inr ?names"
    by (simp add: world_many_def)
  have c: "create_client world_many u v = Inr ()" for u v
    by (simp add: world_many_def world0_def)
  have o: "opened (events (main world_many ?argv)) =
     [''images/01'', ''images/02'', ''images/03'', ''images/04'', ''images/05'',
      ''images/06'', ''images/07'', ''images/08'', ''images/09'', ''images/10'',
      ''images/11'', ''images/12'', ''images/13'', ''images/14'', ''images/15'']"
    unfolding main_opened [OF p] run_inference_opened c sum.case d load_images_opened [OF l]
    by (simp add: img_paths_def world_many_def path_join_def load_image_def and_then_def
        emit_def raising_def returns_def)
  show ?thesis
    using at_most_15_images [of world_many ?argv] p d l o by blast
qed

subsection \<open>The batching iterator\<close>

lemma ceil_div_step:
  fixes B c N :: nat
  assumes "0 < B" and "c < N"
  shows "Suc ((N - (c + B) + B - 1) div B) = (N - c + B - 1) div B"
proof (cases "c + B \<le> N")
  case True
  then obtain m where N: "N = c + B + m"
    using le_Suc_ex by blast
  have "N - c + B - 1 = (m + B - 1) + B"
    unfolding N using assms(1) by simp
  then have "(N - c + B - 1) div B = ((m + B - 1) + B) div B"
    by (rule arg_cong)
  also have "\<dots> = Suc ((m + B - 1) div B)"
    using assms(1) by (simp only: div_add_self2 Suc_eq_plus1)
  finally have r: "(N - c + B - 1) div B = Suc ((m + B - 1) div B)" .
  have "N - (c + B) + B - 1 = m + B - 1"
    unfolding N by simp
  then show ?thesis
    using r by (simp only:)
next
  case False
  have "0 < N - c" "N - c \<le> B"
    using False assms(2) by simp_all
  then obtain d where d: "N - c = Suc d" "d < B"
    by (metis Suc_le_lessD Suc_pred)
  have z: "N - (c + B) = 0"
    using False by simp
  have "(N - c + B - 1) div B = (d + B) div B"
    unfolding d by simp
  also have "\<dots> = Suc (d div B)"
    using assms(1) by (simp only: div_add_self2 Suc_eq_plus1)
  also have "\<dots> = 1"
    using d(2) by simp
  finally show ?thesis
    unfolding z using assms(1) by simp
qed

lemma batches_from_step:
  "0 < B \<Longrightarrow> c < length xs \<Longrightarrow>
   batches_from c B xs = take B (drop c xs) # batches_from (c + B) B xs"
  by (subst batches_from.simps) simp

lemma batches_from_done:
  "length xs \<le> c \<Longrightarrow> batches_from c B xs = []"
  by (subst batches_from.simps) simp

lemma batches_from_concat:
  "0 < B \<Longrightarrow> concat (batches_from c B xs) = drop c xs"
proof (induction c B xs rule: batches_from.induct)
  case (1 c B xs)
  show ?case
  proof (cases "length xs \<le> c")
    case True
    then show ?thesis by (simp add: batches_from_done)
  next
    case False
    then have "concat (batches_from c B xs) = take B (drop c xs) @ drop (c + B) xs"
      using 1 by (simp add: batches_from_step)
    also have "\<dots> = drop c xs"
      by (metis add.commute append_take_drop_id drop_drop)
    finally show ?thesis .
  qed
qed

lemma batches_from_length:
  "0 < B \<Longrightarrow> length (batches_from c B xs) = (length xs - c + B - 1) div B"
proof (induction c B xs rule: batches_from.induct)
  case (1 c B xs)
  show ?case
  proof (cases "length xs \<le> c")
    case True
    then show ?thesis using "1.prems" by (simp add: batches_from_done)
  next
    case False
    then have "length (batches_from c B xs) = Suc ((length xs - (c + B) + B - 1) div B)"
      using 1 by (simp add: batches_from_step)
    also have "\<dots> = (length xs - c + B - 1) div B"
      using "1.prems" False by (intro ceil_div_step) simp_all
    finally show ?thesis .
  qed
qed

lemma batches_from_nth:
  "0 < B \<Longrightarrow> i < length (batches_from c B xs) \<Longrightarrow>
   batches_from c B xs ! i = take B (drop (c + i * B) xs)"
proof (induction c B xs arbitrary: i rule: batches_from.induct)
  case (1 c B xs)
  show ?case
  proof (cases "length xs \<le> c")
    case True
    then show ?thesis using "1.prems" by (simp add: batches_from_done)
  next
    case False
    then have step: "batches_from c B xs = take B (drop c xs) # batches_from (c + B) B xs"
      using "1.prems" by (simp add: batches_from_step)
    show ?thesis
    proof (cases i)
      case 0
      then show ?thesis by (simp add: step)
    next
      case (Suc j)
      then have "j < length (batches_from (c + B) B xs)"
        using "1.prems"(2) unfolding step by simp
      then have "batches_from (c + B) B xs ! j = take B (drop (c + B + j * B) xs)"
        using "1.IH" [of j] False "1.prems"(1) by simp
      then show ?thesis
        unfolding step Suc by (simp add: add.assoc)
    qed
  qed
qed

lemma take_cyclic_length: "xs \<noteq> [] \<Longrightarrow> length (take_cyclic n c xs) = n"
  by (induction n arbitrary: c) simp_all

lemma take_cyclic_nth:
  "xs \<noteq> [] \<Longrightarrow> j < n \<Longrightarrow> take_cyclic n c xs ! j = xs ! ((c + j) mod length xs)"
proof (induction n arbitrary: c j)
  case 0
  then show ?case by simp
next
  case (Suc n)
  show ?case
  proof (cases j)
    case 0
    then show ?thesis using Suc.prems by simp
  next
    case (Suc i)
    then have "i < n" using Suc.prems by simp
    then have "take_cyclic n (Suc c mod length xs) xs ! i =
        xs ! ((Suc c mod length xs + i) mod length xs)"
      using Suc.IH Suc.prems(1) by blast
    also have "(Suc c mod length xs + i) mod length xs = (c + Suc i) mod length xs"
      by (simp add: mod_add_left_eq)
    finally show ?thesis
      using Suc.prems(1) \<open>j = Suc i\<close> by simp
  qed
qed

lemma take_cyclic_cong:
  assumes "xs \<noteq> []" and "a mod length xs = b mod length xs"
  shows "take_cyclic n a xs = take_cyclic n b xs"
proof (rule nth_equalityI)
  show "length (take_cyclic n a xs) = length (take_cyclic n b xs)"
    using assms(1) by (simp add: take_cyclic_length)
next
  fix j
  assume "j < length (take_cyclic n a xs)"
  then have j: "j < n"
    using assms(1) by (simp add: take_cyclic_length)
  have "(a + j) mod length xs = (b + j) mod length xs"
    using assms(2) by (metis mod_add_left_eq)
  then show "take_cyclic n a xs ! j = take_cyclic n b xs ! j"
    using assms(1) j by (simp add: take_cyclic_nth)
qed

lemma cycle_batches_length: "length (cycle_batches n c B xs) = n"
  by (induction n arbitrary: c) simp_all

lemma cycle_batches_nth:
  "xs \<noteq> [] \<Longrightarrow> k < n \<Longrightarrow> cycle_batches n c B xs ! k = take_cyclic B (c + k * B) xs"
proof (induction n arbitrary: c k)
  case 0
  then show ?case by simp
next
  case (Suc n)
  show ?case
  proof (cases k)
    case 0
    then show ?thesis by simp
  next
    case (Suc i)
    then have "i < n" using Suc.prems by simp
    then have "cycle_batches n ((c + B) mod length xs) B xs ! i =
        take_cyclic B ((c + B) mod length xs + i * B) xs"
      using Suc.IH Suc.prems(1) by blast
    also have "\<dots> = take_cyclic B (c + Suc i * B) xs"
      using Suc.prems(1)
      by (intro take_cyclic_cong) (simp_all add: mod_add_left_eq add.assoc)
    finally show ?thesis
      using \<open>k = Suc i\<close> by simp
  qed
qed

lemma lt_ceil_div:
  fixes B N i :: nat
  assumes "0 < B"
  shows "i < (N + B - 1) div B \<longleftrightarrow> i * B < N"
proof -
  have "i < (N + B - 1) div B \<longleftrightarrow> Suc i \<le> (N + B - 1) div B"
    by auto
  also have "\<dots> \<longleftrightarrow> Suc i * B \<le> N + B - 1"
    using assms by (simp only: less_eq_div_iff_mult_less_eq)
  also have "\<dots> \<longleftrightarrow> i * B < N"
    using assms by auto
  finally show ?thesis .
qed

text \<open>
  Claim C5. For a batch size \<open>B\<close> of at least 1 and \<open>N\<close> images, the iterator
  without an iteration count yields \<open>ceil(N / B)\<close> batches whose concatenation is the
  sequence of images: batch \<open>i\<close> holds the \<open>B\<close> images from position \<open>i * B\<close> on,
  every batch is non-empty and only the last may hold fewer than \<open>B\<close>. With an
  iteration count \<open>K\<close> and at least one image it yields \<open>K\<close> batches of \<open>B\<close> images
  each, image \<open>j\<close> of batch \<open>k\<close> being the image at position \<open>(k * B + j) mod N\<close>.
\<close>

theorem batcher_once_or_cycling:
  assumes "0 < B"
  shows "length (batcher xs B None) = (length xs + B - 1) div B \<and>
         concat (batcher xs B None) = xs \<and>
         (\<forall>i < length (batcher xs B None).
            batcher xs B None ! i = take B (drop (i * B) xs) \<and>
            0 < length (batcher xs B None ! i) \<and>
            length (batcher xs B None ! i) \<le> B \<and>
            (Suc i < length (batcher xs B None) \<longrightarrow> length (batcher xs B None ! i) = B)) \<and>
         (xs \<noteq> [] \<longrightarrow>
            length (batcher xs B (Some K)) = K \<and>
            (\<forall>k < K.
               length (batcher xs B (Some K) ! k) = B \<and>
               (\<forall>j < B. batcher xs B (Some K) ! k ! j = xs ! ((k * B + j) mod length xs))))"
proof (intro conjI allI impI)
  show len: "length (batcher xs B None) = (length xs + B - 1) div B"
    using batches_from_length [OF assms, of 0 xs] by (simp add: batcher_def)
  show "concat (batcher xs B None) = xs"
    using batches_from_concat [OF assms, of 0 xs] by (simp add: batcher_def)
  fix i
  assume i: "i < length (batcher xs B None)"
  then show nth: "batcher xs B None ! i = take B (drop (i * B) xs)"
    using batches_from_nth [OF assms, of i 0 xs] by (simp add: batcher_def)
  have "i * B < length xs"
    using i unfolding len lt_ceil_div [OF assms] .
  then show "0 < length (batcher xs B None ! i)" "length (batcher xs B None ! i) \<le> B"
    unfolding nth using assms by simp_all
  show "length (batcher xs B None ! i) = B" if "Suc i < length (batcher xs B None)"
  proof -
    have "Suc i * B < length xs"
      using that unfolding len lt_ceil_div [OF assms] .
    then show ?thesis
      unfolding nth by simp
  qed
next
  assume ne: "xs \<noteq> []"
  show "length (batcher xs B (Some K)) = K"
    by (simp add: batcher_def cycle_batches_length)
  fix k
  assume k: "k < K"
  then have nth: "batcher xs B (Some K) ! k = take_cyclic B (k * B) xs"
    using cycle_batches_nth [OF ne k, of 0 B] by (simp add: batcher_def)
  show "length (batcher xs B (Some K) ! k) = B"
    unfolding nth using ne by (rule take_cyclic_length)
  fix j
  assume "j < B"
  then show "batcher xs B (Some K) ! k ! j = xs ! ((k * B + j) mod length xs)"
    unfolding nth using ne by (simp add: take_cyclic_nth)
qed

theorem batcher_once_or_cycling_witness:
  "(0::nat) < 2 \<and> [10, 20, 30, 40, 50 :: nat] \<noteq> [] \<and>
   batcher [10, 20, 30, 40, 50 :: nat] 2 None = [[10, 20], [30, 40], [50]] \<and>
   batcher [10, 20, 30, 40, 50 :: nat] 2 (Some 4) = [[10, 20], [30, 40], [50, 10], [20, 30]] \<and>
   length (batcher [10, 20, 30, 40, 50 :: nat] 2 None) = (length [10, 20, 30, 40, 50 :: nat] + 2 - 1) div 2 \<and>
   concat (batcher [10, 20, 30, 40, 50 :: nat] 2 None) = [10, 20, 30, 40, 50] \<and>
   length (batcher [10, 20, 30, 40, 50 :: nat] 2 (Some 4)) = 4"
proof -
  have b: "(0::nat) < 2"
    by simp
  have n: "[10, 20, 30, 40, 50 :: nat] \<noteq> []"
    by simp
  have once: "batcher [10, 20, 30, 40, 50 :: nat] 2 None = [[10, 20], [30, 40], [50]]"
    by code_simp
  have cyc: "batcher [10, 20, 30, 40, 50 :: nat] 2 (Some 4) = [[10, 20], [30, 40], [50, 10], [20, 30]]"
    by code_simp
  show ?thesis
    using batcher_once_or_cycling [OF b, of "[10, 20, 30, 40, 50]" 4] b n once cyc by simp
qed

end
